theory Spec2Isabelle
  imports Main "HOL-Library.Sublist"
begin

section \<open>Python values\<close>

text \<open>
  The reviews handled by \<^verbatim>\<open>daraz_scraper.py\<close> are dictionaries decoded from JSON, typed
  \<^verbatim>\<open>Dict[str, Any]\<close>. A value is therefore any JSON value: \<^verbatim>\<open>None\<close>, a boolean, a
  number, a string, a list or a dictionary with string keys. Dictionaries keep their
  insertion order, so they are association lists. Numbers are integers: the code never
  computes with a number it reads, and a float behaves like an integer under every
  operation used here (no subscript, no \<^verbatim>\<open>.get\<close>, no iteration, no \<^verbatim>\<open>.lower\<close>).
  Strings are lists of characters; a character of HOL has 8 bits and stands for the
  code point of that number, so the strings of the model are those of code points
  below 256.
\<close>

datatype pyval =
    PNone
  | PBool bool
  | PInt int
  | PStr string
  | PList "pyval list"
  | PDict "(string \<times> pyval) list"

text \<open>Exceptions are values. \<open>OtherError\<close> stands for what a collaborator raises
  (a network error, a JSON decoding error, an error of the classifier).\<close>

datatype pyerr = KeyError | TypeError | AttributeError | IndexError | OtherError string

type_synonym review = "(string \<times> pyval) list"

text \<open>\<^verbatim>\<open>d[k]\<close> on a dictionary.\<close>

definition dict_getitem :: "(string \<times> pyval) list \<Rightarrow> string \<Rightarrow> pyerr + pyval" where
  "dict_getitem d k = (case map_of d k of None \<Rightarrow> Inl KeyError | Some v \<Rightarrow> Inr v)"

text \<open>\<^verbatim>\<open>v[:512]\<close>: strings and lists are sliced, every other value raises.\<close>

fun slice512 :: "pyval \<Rightarrow> pyerr + pyval" where
  "slice512 (PStr s) = Inr (PStr (take 512 s))"
| "slice512 (PList xs) = Inr (PList (take 512 xs))"
| "slice512 v = Inl TypeError"

text \<open>\<^verbatim>\<open>v[0]\<close>.\<close>

fun getitem0 :: "pyval \<Rightarrow> pyerr + pyval" where
  "getitem0 (PList []) = Inl IndexError"
| "getitem0 (PList (x # xs)) = Inr x"
| "getitem0 (PStr []) = Inl IndexError"
| "getitem0 (PStr (c # cs)) = Inr (PStr [c])"
| "getitem0 (PDict d) = Inl KeyError"
| "getitem0 v = Inl TypeError"

text \<open>\<^verbatim>\<open>v['label']\<close>: only a dictionary accepts a string subscript.\<close>

fun getitem_str :: "pyval \<Rightarrow> string \<Rightarrow> pyerr + pyval" where
  "getitem_str (PDict d) k = dict_getitem d k"
| "getitem_str v k = Inl TypeError"

text \<open>\<^verbatim>\<open>s.lower()\<close>: a method of strings only. Among the code points below 256 the
  capital letters are \<open>A\<close> to \<open>Z\<close> (65 to 90) and the Latin-1 capitals 192 to 222
  without the multiplication sign 215; each is mapped to the letter 32 code points
  further, and every other character is kept.\<close>

definition lower_char :: "char \<Rightarrow> char" where
  "lower_char c =
     (let n = (of_char c :: nat)
      in if (65 \<le> n \<and> n \<le> 90) \<or> (192 \<le> n \<and> n \<le> 222 \<and> n \<noteq> 215)
         then char_of (n + 32) else c)"

fun py_lower :: "pyval \<Rightarrow> pyerr + string" where
  "py_lower (PStr s) = Inr (map lower_char s)"
| "py_lower v = Inl AttributeError"

text \<open>\<^verbatim>\<open>keyword in content\<close> on strings: the keyword occurs as a contiguous substring.\<close>

fun str_contains :: "string \<Rightarrow> string \<Rightarrow> bool" where
  "str_contains k [] = (k = [])"
| "str_contains k (c # cs) = (take (length k) (c # cs) = k \<or> str_contains k cs)"

section \<open>The sentiment loop of \<^verbatim>\<open>analyze_reviews\<close>\<close>

text \<open>
  \<^verbatim>\<open>sentiment_analyzer\<close> is the pipeline of the \<^verbatim>\<open>transformers\<close> library, created at
  import time. It is a parameter here: a function from the value it is called with to
  the value it returns or the exception it raises.
\<close>

type_synonym classifier = "pyval \<Rightarrow> pyerr + pyval"

text \<open>The body of the \<^verbatim>\<open>try\<close> block (lines 67 to 69), up to the label that is appended:
  \<^verbatim>\<open>review['content'][:512]\<close>, \<^verbatim>\<open>sentiment_analyzer(content)[0]\<close>,
  \<^verbatim>\<open>result['label']\<close>. Each step may raise.\<close>

definition classify_review :: "classifier \<Rightarrow> review \<Rightarrow> pyerr + pyval" where
  "classify_review sentiment_analyzer review =
     (case dict_getitem review ''content'' of Inl e \<Rightarrow> Inl e | Inr c \<Rightarrow>
      case slice512 c of Inl e \<Rightarrow> Inl e | Inr content \<Rightarrow>
      case sentiment_analyzer content of Inl e \<Rightarrow> Inl e | Inr out \<Rightarrow>
      case getitem0 out of Inl e \<Rightarrow> Inl e | Inr result \<Rightarrow>
      getitem_str result ''label'')"

text \<open>One iteration of the loop of lines 65 to 71: the bare \<^verbatim>\<open>except\<close> turns every
  exception into the label \<^verbatim>\<open>'NEUTRAL'\<close>.\<close>

definition sentiment_of :: "classifier \<Rightarrow> review \<Rightarrow> pyval" where
  "sentiment_of sentiment_analyzer review =
     (case classify_review sentiment_analyzer review of
        Inl e \<Rightarrow> PStr ''NEUTRAL''
      | Inr label \<Rightarrow> label)"

fun sentiments_loop :: "classifier \<Rightarrow> review list \<Rightarrow> pyval list \<Rightarrow> pyval list" where
  "sentiments_loop sa [] sentiments = sentiments"
| "sentiments_loop sa (review # rest) sentiments =
     sentiments_loop sa rest (sentiments @ [sentiment_of sa review])"

text \<open>\<^verbatim>\<open>sum(1 for s in sentiments if s == label)\<close>.\<close>

definition count_label :: "string \<Rightarrow> pyval list \<Rightarrow> int" where
  "count_label label sentiments = int (length (filter (\<lambda>s. s = PStr label) sentiments))"

section \<open>Issue aggregation\<close>

text \<open>The keyword table of lines 81 to 87; a dictionary literal is iterated in the
  order it is written.\<close>

definition issue_keywords :: "(string \<times> string list) list" where
  "issue_keywords =
     [(''quality'', [''quality'', ''poor'', ''cheap'', ''broken'', ''defective'']),
      (''delivery'', [''delivery'', ''late'', ''slow'', ''shipping'']),
      (''price'', [''price'', ''expensive'', ''overpriced'']),
      (''description'', [''description'', ''different'', ''wrong'']),
      (''service'', [''service'', ''customer'', ''support''])]"

text \<open>\<^verbatim>\<open>issue_counts[issue] += 1\<close> on a \<^verbatim>\<open>defaultdict(int)\<close>: an existing key keeps its
  position, a new key is added at the end with count 1.\<close>

fun incr :: "string \<Rightarrow> (string \<times> int) list \<Rightarrow> (string \<times> int) list" where
  "incr k [] = [(k, 1)]"
| "incr k ((k', n) # rest) = (if k = k' then (k', n + 1) # rest else (k', n) # incr k rest)"

text \<open>\<^verbatim>\<open>any(keyword in content for keyword in keywords)\<close>.\<close>

definition any_keyword :: "string list \<Rightarrow> string \<Rightarrow> bool" where
  "any_keyword keywords content = list_ex (\<lambda>keyword. str_contains keyword content) keywords"

text \<open>The inner loop of lines 91 to 94: the first category with a matching keyword is
  counted, and \<^verbatim>\<open>break\<close> ends the loop.\<close>

fun scan_issues ::
  "(string \<times> string list) list \<Rightarrow> string \<Rightarrow> (string \<times> int) list \<Rightarrow> (string \<times> int) list" where
  "scan_issues [] content issue_counts = issue_counts"
| "scan_issues ((issue, keywords) # rest) content issue_counts =
     (if any_keyword keywords content then incr issue issue_counts
      else scan_issues rest content issue_counts)"

text \<open>The outer loop of lines 89 to 94. \<^verbatim>\<open>review['content'].lower()\<close> is outside any
  \<^verbatim>\<open>try\<close>: an exception there leaves \<^verbatim>\<open>analyze_reviews\<close>.\<close>

fun issues_loop :: "review list \<Rightarrow> (string \<times> int) list \<Rightarrow> pyerr + (string \<times> int) list" where
  "issues_loop [] issue_counts = Inr issue_counts"
| "issues_loop (review # rest) issue_counts =
     (case dict_getitem review ''content'' of Inl e \<Rightarrow> Inl e | Inr c \<Rightarrow>
      case py_lower c of Inl e \<Rightarrow> Inl e | Inr content \<Rightarrow>
      issues_loop rest (scan_issues issue_keywords content issue_counts))"

text \<open>\<^verbatim>\<open>sorted(items, key=lambda x: x[1], reverse=True)\<close>: Python's sort is stable, also
  with \<^verbatim>\<open>reverse=True\<close>, so entries of equal count keep their order in \<open>items\<close>.\<close>

definition sorted_by_count_desc :: "(string \<times> int) list \<Rightarrow> (string \<times> int) list" where
  "sorted_by_count_desc items = sort_key (\<lambda>x. - snd x) items"

section \<open>\<^verbatim>\<open>analyze_reviews\<close>\<close>

text \<open>The returned dictionary has fixed keys, so it is a record; \<open>time_taken\<close> is present
  in the result for the empty list only. \<open>stats\<close> and \<open>issues\<close> are dictionaries.\<close>

record analysis =
  stats :: "(string \<times> int) list"
  issues :: "(string \<times> int) list"
  time_taken :: "int option"

definition negative_reviews :: "review list \<Rightarrow> pyval list \<Rightarrow> review list" where
  "negative_reviews reviews sentiments =
     map fst (filter (\<lambda>(r, s). s = PStr ''NEGATIVE'') (zip reviews sentiments))"

definition analyze_reviews :: "classifier \<Rightarrow> review list \<Rightarrow> pyerr + analysis" where
  "analyze_reviews sentiment_analyzer reviews =
     (if reviews = [] then
        Inr \<lparr>stats = [(''total'', 0)], issues = [], time_taken = Some 0\<rparr>
      else
        let sentiments = sentiments_loop sentiment_analyzer reviews [];
            pos = count_label ''POSITIVE'' sentiments;
            neg = count_label ''NEGATIVE'' sentiments;
            neu = int (length reviews) - pos - neg
        in case issues_loop (negative_reviews reviews sentiments) [] of
             Inl e \<Rightarrow> Inl e
           | Inr issue_counts \<Rightarrow>
               Inr \<lparr>stats = [(''total'', int (length reviews)), (''positive'', pos),
                             (''negative'', neg), (''neutral'', neu)],
                    issues = take 5 (sorted_by_count_desc issue_counts),
                    time_taken = None\<rparr>)"

text \<open>Reading a count out of \<open>stats\<close>, as \<^verbatim>\<open>analysis['stats']['positive']\<close> does.\<close>

definition stat :: "analysis \<Rightarrow> string \<Rightarrow> pyerr + int" where
  "stat a k = (case map_of (stats a) k of None \<Rightarrow> Inl KeyError | Some v \<Rightarrow> Inr v)"

text \<open>The handler builds \<^verbatim>\<open>common_issues\<close> by iterating \<^verbatim>\<open>analysis['issues'].items()\<close>
  (lines 141 to 144): one entry per issue, in the order of the dictionary.\<close>

definition common_issues :: "analysis \<Rightarrow> (string \<times> pyval) list list" where
  "common_issues a = map (\<lambda>(k, v). [(''issue'', PStr k), (''count'', PInt v)]) (issues a)"

section \<open>\<^verbatim>\<open>get_daraz_reviews\<close>\<close>

text \<open>\<^verbatim>\<open>re.search(r'-i(\d+)', url)\<close> followed by \<^verbatim>\<open>group(1)\<close>: the leftmost place where
  \<open>-i\<close> is followed by a digit, and the longest run of digits there.\<close>

definition is_digit :: "char \<Rightarrow> bool" where
  "is_digit c = (let n = (of_char c :: nat) in 48 \<le> n \<and> n \<le> 57)"

fun re_search_product_id :: "string \<Rightarrow> string option" where
  "re_search_product_id [] = None"
| "re_search_product_id (c # cs) =
     (if c = CHR ''-'' then
        (case cs of
           [] \<Rightarrow> None
         | c' # ds \<Rightarrow>
             if c' = CHR ''i'' \<and> takeWhile is_digit ds \<noteq> [] then Some (takeWhile is_digit ds)
             else re_search_product_id cs)
      else re_search_product_id cs)"

text \<open>\<^verbatim>\<open>v.get(k, default)\<close>: a method of dictionaries only.\<close>

fun py_get :: "pyval \<Rightarrow> string \<Rightarrow> pyval \<Rightarrow> pyerr + pyval" where
  "py_get (PDict d) k dflt = Inr (case map_of d k of None \<Rightarrow> dflt | Some v \<Rightarrow> v)"
| "py_get v k dflt = Inl AttributeError"

text \<open>What \<^verbatim>\<open>for item in v\<close> iterates over: the elements of a list, the characters of a
  string, the keys of a dictionary; every other value raises.\<close>

fun py_iter :: "pyval \<Rightarrow> pyerr + pyval list" where
  "py_iter (PList xs) = Inr xs"
| "py_iter (PStr s) = Inr (map (\<lambda>c. PStr [c]) s)"
| "py_iter (PDict d) = Inr (map (\<lambda>kv. PStr (fst kv)) d)"
| "py_iter v = Inl TypeError"

text \<open>The truth value of a value, as \<^verbatim>\<open>not items\<close> tests it.\<close>

fun truthy :: "pyval \<Rightarrow> bool" where
  "truthy PNone = False"
| "truthy (PBool b) = b"
| "truthy (PInt n) = (n \<noteq> 0)"
| "truthy (PStr s) = (s \<noteq> [])"
| "truthy (PList xs) = (xs \<noteq> [])"
| "truthy (PDict d) = (d \<noteq> [])"

text \<open>\<^verbatim>\<open>data.get('model', {}).get('items', [])\<close> (line 34).\<close>

definition page_items :: "pyval \<Rightarrow> pyerr + pyval" where
  "page_items data =
     (case py_get data ''model'' (PDict []) of Inl e \<Rightarrow> Inl e | Inr model \<Rightarrow>
      py_get model ''items'' (PList []))"

text \<open>The dictionary appended for one item (lines 37 to 43).\<close>

definition to_review :: "pyval \<Rightarrow> pyerr + review" where
  "to_review item =
     (case py_get item ''buyerName'' PNone of Inl e \<Rightarrow> Inl e | Inr author \<Rightarrow>
      case py_get item ''rating'' PNone of Inl e \<Rightarrow> Inl e | Inr rating \<Rightarrow>
      case py_get item ''reviewTime'' PNone of Inl e \<Rightarrow> Inl e | Inr date \<Rightarrow>
      case py_get item ''reviewContent'' PNone of Inl e \<Rightarrow> Inl e | Inr content \<Rightarrow>
      case py_get item ''likeCount'' PNone of Inl e \<Rightarrow> Inl e | Inr likes \<Rightarrow>
      Inr [(''author'', author), (''rating'', rating), (''date'', date),
           (''content'', content), (''likes'', likes)])"

text \<open>The loop of lines 36 to 43. \<open>reviews\<close> is mutated in place, so what was appended
  before an exception stays appended.\<close>

fun append_items :: "pyval list \<Rightarrow> review list \<Rightarrow> review list \<times> pyerr option" where
  "append_items [] reviews = (reviews, None)"
| "append_items (item # rest) reviews =
     (case to_review item of
        Inl e \<Rightarrow> (reviews, Some e)
      | Inr r \<Rightarrow> append_items rest (reviews @ [r]))"

text \<open>
  The remote endpoint is a parameter: \<open>fetch product_id page\<close> is what
  \<^verbatim>\<open>requests.get(api_url, timeout=10)\<close> followed by \<^verbatim>\<open>response.json()\<close> gives for the
  URL built from \<open>product_id\<close> and \<open>page\<close> (lines 30, 32 and 33): the decoded JSON, or
  the exception raised by the request or by the decoding.
\<close>

type_synonym fetcher = "string \<Rightarrow> int \<Rightarrow> pyerr + pyval"

text \<open>How the body of the \<^verbatim>\<open>try\<close> block ends: it raises, it reaches \<^verbatim>\<open>break\<close>, or it
  falls through to the next page.\<close>

datatype flow = Raised pyerr | Break | Next

definition page_body :: "fetcher \<Rightarrow> string \<Rightarrow> int \<Rightarrow> review list \<Rightarrow> review list \<times> flow" where
  "page_body fetch product_id page reviews =
     (case fetch product_id page of Inl e \<Rightarrow> (reviews, Raised e) | Inr data \<Rightarrow>
      case page_items data of Inl e \<Rightarrow> (reviews, Raised e) | Inr items \<Rightarrow>
      case py_iter items of Inl e \<Rightarrow> (reviews, Raised e) | Inr its \<Rightarrow>
      case append_items its reviews of
        (reviews', Some e) \<Rightarrow> (reviews', Raised e)
      | (reviews', None) \<Rightarrow> (reviews', if \<not> truthy items then Break else Next))"

text \<open>The state of the loop over the pages: the reviews appended so far and, to make
  the network calls observable, the pages requested so far.\<close>

record fetch_state =
  st_reviews :: "review list"
  st_fetched :: "int list"

text \<open>The loop of lines 29 to 50. The \<^verbatim>\<open>except\<close> clause prints and continues.\<close>

fun pages_loop :: "fetcher \<Rightarrow> string \<Rightarrow> int list \<Rightarrow> fetch_state \<Rightarrow> fetch_state" where
  "pages_loop fetch product_id [] st = st"
| "pages_loop fetch product_id (page # rest) st =
     (case page_body fetch product_id page (st_reviews st) of
        (reviews', Break) \<Rightarrow> \<lparr>st_reviews = reviews', st_fetched = st_fetched st @ [page]\<rparr>
      | (reviews', Raised e) \<Rightarrow>
          pages_loop fetch product_id rest
            \<lparr>st_reviews = reviews', st_fetched = st_fetched st @ [page]\<rparr>
      | (reviews', Next) \<Rightarrow>
          pages_loop fetch product_id rest
            \<lparr>st_reviews = reviews', st_fetched = st_fetched st @ [page]\<rparr>)"

text \<open>\<^verbatim>\<open>range(1, max_pages + 1)\<close> is the list \<open>[1..max_pages]\<close>, empty when
  \<open>max_pages < 1\<close>.\<close>

definition daraz_run :: "fetcher \<Rightarrow> string \<Rightarrow> int \<Rightarrow> fetch_state" where
  "daraz_run fetch url max_pages =
     (case re_search_product_id url of
        None \<Rightarrow> \<lparr>st_reviews = [], st_fetched = []\<rparr>
      | Some product_id \<Rightarrow>
          pages_loop fetch product_id [1..max_pages] \<lparr>st_reviews = [], st_fetched = []\<rparr>)"

definition get_daraz_reviews :: "fetcher \<Rightarrow> string \<Rightarrow> int \<Rightarrow> review list" where
  "get_daraz_reviews fetch url max_pages = st_reviews (daraz_run fetch url max_pages)"

definition pages_fetched :: "fetcher \<Rightarrow> string \<Rightarrow> int \<Rightarrow> int list" where
  "pages_fetched fetch url max_pages = st_fetched (daraz_run fetch url max_pages)"

section \<open>A test double for the classifier\<close>

text \<open>
  The examples below need a concrete classifier. \<open>keyword_pipeline\<close> follows the calling
  convention of the \<^verbatim>\<open>transformers\<close> text-classification pipeline: called with a text
  it returns a list with one result, called with a list of texts it returns one result
  per text, and it raises on anything else. A result is a dictionary with the keys
  \<^verbatim>\<open>label\<close> and \<^verbatim>\<open>score\<close>. Like the SST-2 model it has two labels; a text is
  \<^verbatim>\<open>POSITIVE\<close> when it contains \<open>good\<close> and \<^verbatim>\<open>NEGATIVE\<close> otherwise.
\<close>

definition label_text :: "string \<Rightarrow> pyval" where
  "label_text s =
     PDict [(''label'', PStr (if str_contains ''good'' s then ''POSITIVE'' else ''NEGATIVE'')),
            (''score'', PInt 1)]"

fun text_of :: "pyval \<Rightarrow> string option" where
  "text_of (PStr s) = Some s"
| "text_of v = None"

fun keyword_pipeline :: classifier where
  "keyword_pipeline (PStr s) = Inr (PList [label_text s])"
| "keyword_pipeline (PList xs) =
     (if list_all (\<lambda>x. text_of x \<noteq> None) xs
      then Inr (PList (map (\<lambda>x. label_text (the (text_of x))) xs))
      else Inl (OtherError ''ValueError''))"
| "keyword_pipeline v = Inl (OtherError ''ValueError'')"

definition rv :: "pyval \<Rightarrow> review" where
  "rv c = [(''author'', PNone), (''rating'', PInt 1), (''date'', PNone),
           (''content'', c), (''likes'', PInt 0)]"

text \<open>A test double for the remote endpoint, whatever the product: page 1 times out,
  page 2 has two well-formed items around an item that is a number, page 3 has no
  items, and every later page has one item.\<close>

definition sample_item :: "string \<Rightarrow> pyval" where
  "sample_item c = PDict [(''buyerName'', PStr ''A''), (''reviewContent'', PStr c)]"

definition sample_page :: "pyval list \<Rightarrow> pyval" where
  "sample_page its = PDict [(''model'', PDict [(''items'', PList its)])]"

definition sample_fetch :: fetcher where
  "sample_fetch product_id page =
     (if page = 1 then Inl (OtherError ''Timeout'')
      else if page = 2 then Inr (sample_page [sample_item ''bad'', PInt 3, sample_item ''x''])
      else if page = 3 then Inr (sample_page [])
      else Inr (sample_page [sample_item ''never'']))"



section \<open>Notions used to state the properties\<close>

text \<open>The reviews a page appends before the body of its \<^verbatim>\<open>try\<close> block ends.\<close>

definition appended_by_page :: "fetcher \<Rightarrow> string \<Rightarrow> int \<Rightarrow> review list" where
  "appended_by_page fetch product_id page = fst (page_body fetch product_id page [])"

text \<open>The reviews returned by the loop over a list of pages, started with no
  reviews.\<close>

definition run_pages :: "fetcher \<Rightarrow> string \<Rightarrow> int list \<Rightarrow> review list" where
  "run_pages fetch product_id pages =
     st_reviews (pages_loop fetch product_id pages \<lparr>st_reviews = [], st_fetched = []\<rparr>)"

text \<open>A page is skipped, as the specification words it: the reviews returned for
  \<open>1, \<dots>, max_pages\<close> are those returned when the page is left out.\<close>

definition page_is_skipped :: "fetcher \<Rightarrow> string \<Rightarrow> int \<Rightarrow> int \<Rightarrow> bool" where
  "page_is_skipped fetch product_id page max_pages =
     (run_pages fetch product_id [1..max_pages] =
      run_pages fetch product_id ([1..page - 1] @ [page + 1..max_pages]))"

text \<open>The counts of \<open>stats\<close> are all present, add up to \<open>total\<close>, and \<open>total\<close> is
  \<open>n\<close>.\<close>

definition counts_sum_to_total :: "analysis \<Rightarrow> int \<Rightarrow> bool" where
  "counts_sum_to_total a n =
     (case (stat a ''positive'', stat a ''negative'', stat a ''neutral'', stat a ''total'') of
        (Inr p, Inr ng, Inr nu, Inr t) \<Rightarrow> p + ng + nu = t \<and> t = n
      | _ \<Rightarrow> False)"

text \<open>The category a lower-cased content is attributed to: the first entry of the
  keyword table with a keyword in the content.\<close>

definition issue_of :: "string \<Rightarrow> string option" where
  "issue_of content =
     map_option fst (find (\<lambda>entry. any_keyword (snd entry) content) issue_keywords)"

text \<open>The category a review is attributed to, if its content can be lower-cased.\<close>

definition review_issue :: "review \<Rightarrow> string option" where
  "review_issue review =
     (case dict_getitem review ''content'' of Inl e \<Rightarrow> None | Inr c \<Rightarrow>
      case py_lower c of Inl e \<Rightarrow> None | Inr content \<Rightarrow> issue_of content)"

text \<open>The categories counted for a list of reviews, one per attributed review, in the
  order of the reviews.\<close>

definition attributed_issues :: "review list \<Rightarrow> string list" where
  "attributed_issues rs = List.map_filter review_issue rs"

text \<open>Counting a sequence of categories one after the other.\<close>

fun tally :: "string list \<Rightarrow> (string \<times> int) list \<Rightarrow> (string \<times> int) list" where
  "tally [] issue_counts = issue_counts"
| "tally (k # ks) issue_counts = tally ks (incr k issue_counts)"

text \<open>The position of the first occurrence of \<open>k\<close> in a list (its length when \<open>k\<close>
  does not occur).\<close>

definition first_index :: "'a list \<Rightarrow> 'a \<Rightarrow> nat" where
  "first_index xs k = length (takeWhile (\<lambda>x. x \<noteq> k) xs)"

text \<open>The order of the issue list as the specification words it: by count descending,
  equal counts by position in the keyword table.\<close>

definition taxonomy_index :: "string \<Rightarrow> nat" where
  "taxonomy_index k = first_index (map fst issue_keywords) k"

definition ranked_by_taxonomy :: "(string \<times> int) list \<Rightarrow> bool" where
  "ranked_by_taxonomy xs =
     sorted_wrt (\<lambda>x y. snd y < snd x \<or> (snd x = snd y \<and> taxonomy_index (fst x) < taxonomy_index (fst y))) xs"

text \<open>The order the code produces: by count descending, equal counts by the position
  of the first review attributed to the category.\<close>

definition ranked_by_first_seen :: "string list \<Rightarrow> (string \<times> int) list \<Rightarrow> bool" where
  "ranked_by_first_seen seen xs =
     sorted_wrt (\<lambda>x y. snd y < snd x \<or> (snd x = snd y \<and> first_index seen (fst x) < first_index seen (fst y))) xs"

text \<open>The sentiment labels and the negative reviews of a call of \<^verbatim>\<open>analyze_reviews\<close>.\<close>

definition labels :: "classifier \<Rightarrow> review list \<Rightarrow> pyval list" where
  "labels sa reviews = sentiments_loop sa reviews []"

definition negatives :: "classifier \<Rightarrow> review list \<Rightarrow> review list" where
  "negatives sa reviews = negative_reviews reviews (labels sa reviews)"

text \<open>A URL contains the pattern \<open>-i<digits>\<close>: some suffix of it starts with \<open>-i\<close>
  and a digit.\<close>

fun product_id_here :: "string \<Rightarrow> bool" where
  "product_id_here (c1 # c2 # d # rest) = (c1 = CHR ''-'' \<and> c2 = CHR ''i'' \<and> is_digit d)"
| "product_id_here s = False"

definition has_product_id :: "string \<Rightarrow> bool" where
  "has_product_id url = list_ex product_id_here (suffixes url)"

text \<open>A page is fetched and decoded without error and has zero items.\<close>

definition returns_zero_items :: "fetcher \<Rightarrow> string \<Rightarrow> int \<Rightarrow> bool" where
  "returns_zero_items fetch product_id page =
     (case fetch product_id page of Inl e \<Rightarrow> False | Inr data \<Rightarrow>
      case page_items data of Inl e \<Rightarrow> False | Inr items \<Rightarrow>
      py_iter items = Inr [])"

section \<open>Basic facts\<close>

lemma sentiments_loop_eq: "sentiments_loop sa reviews acc = acc @ map (sentiment_of sa) reviews"
  by (induction reviews arbitrary: acc) simp_all

lemma count_label_disjoint:
  "count_label ''POSITIVE'' xs + count_label ''NEGATIVE'' xs \<le> int (length xs)"
proof (induction xs)
  case Nil
  show ?case by (simp add: count_label_def)
next
  case (Cons x xs)
  then show ?case by (auto simp: count_label_def)
qed

lemma analyze_nonempty:
  assumes "reviews \<noteq> []" "analyze_reviews sa reviews = Inr a"
  shows "stats a = [(''total'', int (length reviews)),
                    (''positive'', count_label ''POSITIVE'' (labels sa reviews)),
                    (''negative'', count_label ''NEGATIVE'' (labels sa reviews)),
                    (''neutral'', int (length reviews) - count_label ''POSITIVE'' (labels sa reviews)
                                   - count_label ''NEGATIVE'' (labels sa reviews))]"
    and "\<exists>issue_counts. issues_loop (negatives sa reviews) [] = Inr issue_counts
           \<and> issues a = take 5 (sorted_by_count_desc issue_counts)"
  using assms
  by (auto simp: analyze_reviews_def labels_def negatives_def Let_def split: sum.splits)

section \<open>The sentiment counts\<close>

text \<open>
  Claim C1, as far as the code goes. For every non-empty review list on which
  \<^verbatim>\<open>analyze_reviews\<close> returns, \<open>stats\<close> holds the four counts, \<open>positive\<close>,
  \<open>negative\<close> and \<open>neutral\<close> add up to \<open>total\<close>, \<open>total\<close> is the length of the list,
  \<open>positive\<close> and \<open>negative\<close> count the labels, and \<open>neutral\<close> is derived as
  \<open>total - positive - negative\<close>.
\<close>

theorem C1_counts_sum_to_total:
  assumes "reviews \<noteq> []" and "analyze_reviews sa reviews = Inr a"
  shows "counts_sum_to_total a (int (length reviews))
       \<and> stat a ''positive'' = Inr (count_label ''POSITIVE'' (labels sa reviews))
       \<and> stat a ''negative'' = Inr (count_label ''NEGATIVE'' (labels sa reviews))
       \<and> stat a ''neutral'' = Inr (int (length reviews) - count_label ''POSITIVE'' (labels sa reviews)
                                   - count_label ''NEGATIVE'' (labels sa reviews))"
  using analyze_nonempty(1)[OF assms]
  by (simp add: counts_sum_to_total_def stat_def)

text \<open>An instance: one positive, one negative and one review without content.\<close>

theorem C1_counts_sum_to_total_witness:
  "[rv (PStr ''good''), rv (PStr ''late''), rv PNone] \<noteq> []
   \<and> analyze_reviews keyword_pipeline [rv (PStr ''good''), rv (PStr ''late''), rv PNone]
       = Inr \<lparr>stats = [(''total'', 3), (''positive'', 1), (''negative'', 1), (''neutral'', 1)],
               issues = [(''delivery'', 1)], time_taken = None\<rparr>
   \<and> counts_sum_to_total
        \<lparr>stats = [(''total'', 3), (''positive'', 1), (''negative'', 1), (''neutral'', 1)],
          issues = [(''delivery'', 1)], time_taken = None\<rparr> 3"
proof -
  have h1: "[rv (PStr ''good''), rv (PStr ''late''), rv PNone] \<noteq> []" by simp
  have h2: "analyze_reviews keyword_pipeline [rv (PStr ''good''), rv (PStr ''late''), rv PNone]
       = Inr \<lparr>stats = [(''total'', 3), (''positive'', 1), (''negative'', 1), (''neutral'', 1)],
               issues = [(''delivery'', 1)], time_taken = None\<rparr>" by code_simp
  from C1_counts_sum_to_total[OF h1 h2] h1 h2 show ?thesis by simp
qed

text \<open>For the empty list the guard of line 56 returns \<open>stats\<close> with the key \<open>total\<close>
  only: reading \<open>positive\<close> raises \<^verbatim>\<open>KeyError\<close>, and the three counts do not exist.\<close>

theorem C1_empty_list_counterexample:
  "analyze_reviews keyword_pipeline [] = Inr \<lparr>stats = [(''total'', 0)], issues = [], time_taken = Some 0\<rparr>
   \<and> stat \<lparr>stats = [(''total'', 0)], issues = [], time_taken = Some 0\<rparr> ''positive'' = Inl KeyError
   \<and> \<not> counts_sum_to_total \<lparr>stats = [(''total'', 0)], issues = [], time_taken = Some 0\<rparr> 0"
  by (simp add: analyze_reviews_def stat_def counts_sum_to_total_def)

section \<open>Failure isolation in the sentiment loop\<close>

lemma labels_eq: "labels sa reviews = map (sentiment_of sa) reviews"
  by (simp add: labels_def sentiments_loop_eq)

lemma negatives_eq:
  "negatives sa reviews = filter (\<lambda>r. sentiment_of sa r = PStr ''NEGATIVE'') reviews"
proof -
  have "map fst (filter (\<lambda>(r, s). s = PStr ''NEGATIVE'') (zip rs (map f rs)))
        = filter (\<lambda>r. f r = PStr ''NEGATIVE'') rs" for f and rs :: "review list"
    by (induction rs) simp_all
  then show ?thesis by (simp add: negatives_def negative_reviews_def labels_eq)
qed

lemma sentiment_of_failed: "classify_review sa r = Inl e \<Longrightarrow> sentiment_of sa r = PStr ''NEUTRAL''"
  by (simp add: sentiment_of_def)

lemma classify_review_absent:
  "map_of r ''content'' = None \<Longrightarrow> classify_review sa r = Inl KeyError"
  by (simp add: classify_review_def dict_getitem_def)

lemma classify_review_None:
  "map_of r ''content'' = Some PNone \<Longrightarrow> classify_review sa r = Inl TypeError"
  by (simp add: classify_review_def dict_getitem_def)

lemma classify_review_classifier_error:
  "map_of r ''content'' = Some (PStr s) \<Longrightarrow> sa (PStr (take 512 s)) = Inl e \<Longrightarrow> classify_review sa r = Inl e"
  by (simp add: classify_review_def dict_getitem_def)

text \<open>
  Claim C6. The sentiment loop gives one label per review. When the \<^verbatim>\<open>try\<close> block
  raises for a review (the content is absent or cannot be sliced, the classifier raises,
  or its result has not the expected shape; see \<open>classify_review_absent\<close>,
  \<open>classify_review_None\<close> and \<open>classify_review_classifier_error\<close>), the label of that
  review is \<^verbatim>\<open>NEUTRAL\<close>, every review whose classification succeeds still gets the
  label of the classifier, and the failed review is not among the negative reviews, so
  no later step of \<^verbatim>\<open>analyze_reviews\<close> reads it again.
\<close>

theorem C6_failed_classification_is_neutral:
  assumes "i < length reviews" and "classify_review sa (reviews ! i) = Inl e"
  shows "length (labels sa reviews) = length reviews
       \<and> labels sa reviews ! i = PStr ''NEUTRAL''
       \<and> (\<forall>j<length reviews. \<forall>l. classify_review sa (reviews ! j) = Inr l \<longrightarrow> labels sa reviews ! j = l)
       \<and> reviews ! i \<notin> set (negatives sa reviews)"
  using assms
  by (auto simp: labels_eq negatives_eq sentiment_of_def)

text \<open>An instance: the second of three reviews has no content; the third is still
  classified.\<close>

theorem C6_failed_classification_is_neutral_witness:
  "(1::nat) < length [rv (PStr ''good''), rv PNone, rv (PStr ''slow'')]
   \<and> classify_review keyword_pipeline ([rv (PStr ''good''), rv PNone, rv (PStr ''slow'')] ! 1) = Inl TypeError
   \<and> classify_review keyword_pipeline ([rv (PStr ''good''), rv PNone, rv (PStr ''slow'')] ! 2) = Inr (PStr ''NEGATIVE'')
   \<and> length (labels keyword_pipeline [rv (PStr ''good''), rv PNone, rv (PStr ''slow'')]) = 3
   \<and> labels keyword_pipeline [rv (PStr ''good''), rv PNone, rv (PStr ''slow'')] ! 1 = PStr ''NEUTRAL''
   \<and> labels keyword_pipeline [rv (PStr ''good''), rv PNone, rv (PStr ''slow'')] ! 2 = PStr ''NEGATIVE''"
proof -
  let ?rs = "[rv (PStr ''good''), rv PNone, rv (PStr ''slow'')]"
  have h1: "(1::nat) < length ?rs" by simp
  have h2: "classify_review keyword_pipeline (?rs ! 1) = Inl TypeError" by code_simp
  have h3: "classify_review keyword_pipeline (?rs ! 2) = Inr (PStr ''NEGATIVE'')" by code_simp
  note c = C6_failed_classification_is_neutral[OF h1 h2]
  from c have len: "length (labels keyword_pipeline ?rs) = 3" by simp
  from c have l1: "labels keyword_pipeline ?rs ! 1 = PStr ''NEUTRAL''" by simp
  from c h3 have l2: "labels keyword_pipeline ?rs ! 2 = PStr ''NEGATIVE''" by simp
  from h1 h2 h3 len l1 l2 show ?thesis by blast
qed

section \<open>Truncation before classification\<close>

text \<open>
  Claim C8. For a review whose content is a string, the classifier is called with
  exactly the first 512 characters of the content, and two reviews whose contents agree
  on their first 512 characters get the same label.
\<close>

theorem C8_classifier_sees_first_512:
  assumes "dict_getitem r1 ''content'' = Inr (PStr s1)"
      and "dict_getitem r2 ''content'' = Inr (PStr s2)"
      and "take 512 s1 = take 512 s2"
  shows "classify_review sa r1 =
           (case sa (PStr (take 512 s1)) of Inl e \<Rightarrow> Inl e | Inr out \<Rightarrow>
            case getitem0 out of Inl e \<Rightarrow> Inl e | Inr result \<Rightarrow> getitem_str result ''label'')
       \<and> sentiment_of sa r1 = sentiment_of sa r2"
  using assms by (simp add: classify_review_def sentiment_of_def)

text \<open>An instance: two contents of 517 characters that differ after the first 512.\<close>

theorem C8_classifier_sees_first_512_witness:
  "dict_getitem (rv (PStr (replicate 512 CHR ''a'' @ '' good''))) ''content''
      = Inr (PStr (replicate 512 CHR ''a'' @ '' good''))
   \<and> dict_getitem (rv (PStr (replicate 512 CHR ''a'' @ '' poor''))) ''content''
      = Inr (PStr (replicate 512 CHR ''a'' @ '' poor''))
   \<and> take 512 (replicate 512 CHR ''a'' @ '' good'') = take 512 (replicate 512 CHR ''a'' @ '' poor'')
   \<and> replicate 512 CHR ''a'' @ '' good'' \<noteq> replicate 512 CHR ''a'' @ '' poor''
   \<and> sentiment_of keyword_pipeline (rv (PStr (replicate 512 CHR ''a'' @ '' good'')))
      = sentiment_of keyword_pipeline (rv (PStr (replicate 512 CHR ''a'' @ '' poor'')))"
proof -
  let ?s1 = "replicate 512 CHR ''a'' @ '' good''" and ?s2 = "replicate 512 CHR ''a'' @ '' poor''"
  have h1: "dict_getitem (rv (PStr ?s1)) ''content'' = Inr (PStr ?s1)"
    by (simp add: rv_def dict_getitem_def)
  have h2: "dict_getitem (rv (PStr ?s2)) ''content'' = Inr (PStr ?s2)"
    by (simp add: rv_def dict_getitem_def)
  have h3: "take 512 ?s1 = take 512 ?s2" by simp
  have h4: "?s1 \<noteq> ?s2" by simp
  from C8_classifier_sees_first_512[OF h1 h2 h3, of keyword_pipeline] h1 h2 h3 h4
  show ?thesis by blast
qed

section \<open>Lower-casing in the issue loop\<close>

text \<open>A negative review was sliced without error, so its content is a string or a
  list; lower-casing a string cannot fail.\<close>

lemma negative_content_sliceable:
  assumes "r \<in> set (negatives sa reviews)"
  shows "\<exists>c. dict_getitem r ''content'' = Inr c \<and> ((\<exists>s. c = PStr s) \<or> (\<exists>xs. c = PList xs))"
proof -
  from assms have neg: "sentiment_of sa r = PStr ''NEGATIVE''" by (simp add: negatives_eq)
  then obtain l where "classify_review sa r = Inr l"
    by (auto simp: sentiment_of_def split: sum.splits)
  then obtain c c' where "dict_getitem r ''content'' = Inr c" and "slice512 c = Inr c'"
    by (auto simp: classify_review_def split: sum.splits)
  then show ?thesis by (cases c) auto
qed

lemma issues_loop_strings:
  assumes "\<forall>r\<in>set rs. \<exists>s. dict_getitem r ''content'' = Inr (PStr s)"
  shows "\<exists>issue_counts'. issues_loop rs issue_counts = Inr issue_counts'"
  using assms by (induction rs arbitrary: issue_counts) auto

text \<open>
  Claim C10 says that the lower-casing of line 90 never fails, because a review without
  content is labelled \<^verbatim>\<open>NEUTRAL\<close>. That covers \<^verbatim>\<open>None\<close>, but not a content that is a list
  of texts: \<^verbatim>\<open>[:512]\<close> slices a list, the pipeline accepts a list of texts and
  \<^verbatim>\<open>[0]\<close> takes its first result, so the review can be labelled \<^verbatim>\<open>NEGATIVE\<close>; then
  \<^verbatim>\<open>.lower()\<close> raises \<^verbatim>\<open>AttributeError\<close> outside any \<^verbatim>\<open>try\<close>, and \<^verbatim>\<open>analyze_reviews\<close>
  raises for the whole batch.
\<close>

theorem C10_list_content_raises:
  "labels keyword_pipeline [rv (PList [PStr ''broken'']), rv (PStr ''good'')]
     = [PStr ''NEGATIVE'', PStr ''POSITIVE'']
   \<and> negatives keyword_pipeline [rv (PList [PStr ''broken'']), rv (PStr ''good'')]
     = [rv (PList [PStr ''broken''])]
   \<and> py_lower (PList [PStr ''broken'']) = Inl AttributeError
   \<and> analyze_reviews keyword_pipeline [rv (PList [PStr ''broken'']), rv (PStr ''good'')]
     = Inl AttributeError"
  by code_simp

section \<open>Attribution of a negative review to one category\<close>

lemma find_first_match:
  "i < length tbl \<Longrightarrow> P (tbl ! i) \<Longrightarrow> \<forall>e\<in>set (take i tbl). \<not> P e \<Longrightarrow> find P tbl = Some (tbl ! i)"
proof (induction tbl arbitrary: i)
  case Nil
  then show ?case by simp
next
  case (Cons e tbl)
  show ?case
  proof (cases i)
    case 0
    with Cons.prems show ?thesis by simp
  next
    case (Suc j)
    with Cons.prems have "\<not> P e" and "j < length tbl" and "P (tbl ! j)"
      and "\<forall>e\<in>set (take j tbl). \<not> P e" by simp_all
    with Cons.IH[of j] Suc show ?thesis by simp
  qed
qed

lemma scan_issues_find:
  "scan_issues tbl content cs =
     (case find (\<lambda>entry. any_keyword (snd entry) content) tbl of
        None \<Rightarrow> cs | Some entry \<Rightarrow> incr (fst entry) cs)"
  by (induction tbl) auto

lemma scan_issues_issue_of:
  "scan_issues issue_keywords content cs =
     (case issue_of content of None \<Rightarrow> cs | Some k \<Rightarrow> incr k cs)"
  by (simp add: scan_issues_find issue_of_def split: option.splits)

lemma sum_incr: "sum_list (map snd (incr k cs)) = sum_list (map snd cs) + 1"
  by (induction cs) auto

lemma scan_issues_at_most_one:
  "sum_list (map snd (scan_issues tbl content cs)) \<le> sum_list (map snd cs) + 1"
  by (simp add: scan_issues_find sum_incr split: option.splits)

lemma issue_keywords_names:
  "map fst issue_keywords = [''quality'', ''delivery'', ''price'', ''description'', ''service'']"
  by (simp add: issue_keywords_def)

text \<open>
  Claim C3. Take a negative review whose content lower-cases to \<open>content\<close>, and let the
  \<open>i\<close>-th category of the keyword table (in the declared order quality, delivery,
  price, description, service) be the first one with a keyword in \<open>content\<close>. Whatever
  later categories match as well, the inner loop increments the count of that category
  and of no other: the issue loop goes on with \<open>incr\<close> applied once, and the sum of
  the counts grows by exactly one. (\<open>scan_issues_at_most_one\<close>: for any content the sum
  grows by at most one.)
\<close>

theorem C3_first_matching_category:
  assumes "dict_getitem review ''content'' = Inr c" and "py_lower c = Inr content"
      and "i < length issue_keywords"
      and "any_keyword (snd (issue_keywords ! i)) content"
      and "\<forall>entry\<in>set (take i issue_keywords). \<not> any_keyword (snd entry) content"
  shows "scan_issues issue_keywords content issue_counts = incr (fst (issue_keywords ! i)) issue_counts
       \<and> issues_loop (review # rest) issue_counts
           = issues_loop rest (incr (fst (issue_keywords ! i)) issue_counts)
       \<and> sum_list (map snd (incr (fst (issue_keywords ! i)) issue_counts))
           = sum_list (map snd issue_counts) + 1
       \<and> map fst issue_keywords = [''quality'', ''delivery'', ''price'', ''description'', ''service'']"
proof -
  have "find (\<lambda>entry. any_keyword (snd entry) content) issue_keywords = Some (issue_keywords ! i)"
    using assms(3-5) by (rule find_first_match)
  then have scan: "scan_issues issue_keywords content issue_counts
      = incr (fst (issue_keywords ! i)) issue_counts"
    by (simp add: scan_issues_find)
  with assms(1,2) show ?thesis by (simp add: sum_incr issue_keywords_names)
qed

text \<open>An instance: the content has keywords of price and of service, and none of
  quality or delivery; price, the earlier of the two, is counted.\<close>

theorem C3_first_matching_category_witness:
  "dict_getitem (rv (PStr ''EXPENSIVE and no customer Support'')) ''content''
      = Inr (PStr ''EXPENSIVE and no customer Support'')
   \<and> py_lower (PStr ''EXPENSIVE and no customer Support'') = Inr ''expensive and no customer support''
   \<and> (2::nat) < length issue_keywords
   \<and> any_keyword (snd (issue_keywords ! 2)) ''expensive and no customer support''
   \<and> any_keyword (snd (issue_keywords ! 4)) ''expensive and no customer support''
   \<and> list_all (\<lambda>entry. \<not> any_keyword (snd entry) ''expensive and no customer support'')
        (take 2 issue_keywords)
   \<and> scan_issues issue_keywords ''expensive and no customer support'' [(''service'', 2)]
      = [(''service'', 2), (''price'', 1)]"
proof -
  let ?c = "''expensive and no customer support''"
  have h1: "dict_getitem (rv (PStr ''EXPENSIVE and no customer Support'')) ''content''
      = Inr (PStr ''EXPENSIVE and no customer Support'')" by (simp add: rv_def dict_getitem_def)
  have h2: "py_lower (PStr ''EXPENSIVE and no customer Support'') = Inr ?c" by code_simp
  have h3: "(2::nat) < length issue_keywords" by (simp add: issue_keywords_def)
  have h4: "any_keyword (snd (issue_keywords ! 2)) ?c" by code_simp
  have h4': "any_keyword (snd (issue_keywords ! 4)) ?c" by code_simp
  have h5: "\<forall>entry\<in>set (take 2 issue_keywords). \<not> any_keyword (snd entry) ?c" by code_simp
  have k: "incr (fst (issue_keywords ! 2)) [(''service'', 2)] = [(''service'', 2), (''price'', 1)]"
    by code_simp
  from C3_first_matching_category[OF h1 h2 h3 h4 h5, of "[(''service'', 2)]"] k
  have "scan_issues issue_keywords ?c [(''service'', 2)] = [(''service'', 2), (''price'', 1)]"
    by simp
  moreover from h5 have "list_all (\<lambda>entry. \<not> any_keyword (snd entry) ?c) (take 2 issue_keywords)"
    by (simp add: list_all_iff)
  ultimately show ?thesis using h1 h2 h3 h4 h4' by blast
qed

section \<open>The issue tally\<close>

text \<open>The issue loop counts the categories of the negative reviews one after the other
  (\<open>issues_loop_tally\<close>). The keys of the tally are the categories seen, each once, in
  the order in which they were first seen (\<open>tally_keys\<close>); there are at most five
  (\<open>tally_length\<close>), and the counts add up to the number of attributed reviews
  (\<open>tally_sum\<close>).\<close>

lemma keys_incr:
  "map fst (incr k cs) = (if k \<in> set (map fst cs) then map fst cs else map fst cs @ [k])"
  by (induction cs) force+

lemma first_index_less: "a \<in> set xs \<Longrightarrow> first_index xs a < length xs"
  unfolding first_index_def by (induction xs) auto

lemma first_index_snoc_old: "a \<in> set xs \<Longrightarrow> first_index (xs @ [k]) a = first_index xs a"
  unfolding first_index_def by (induction xs) auto

lemma first_index_snoc_new: "k \<notin> set xs \<Longrightarrow> first_index (xs @ [k]) k = length xs"
  unfolding first_index_def by (induction xs) auto

lemma tally_snoc: "tally (ks @ [k]) cs = incr k (tally ks cs)"
  by (induction ks arbitrary: cs) simp_all

lemma tally_sum: "sum_list (map snd (tally ks cs)) = sum_list (map snd cs) + int (length ks)"
  by (induction ks arbitrary: cs) (simp_all add: sum_incr)

lemma tally_keys:
  "set (map fst (tally ks [])) = set ks
   \<and> distinct (map fst (tally ks []))
   \<and> sorted_wrt (\<lambda>a b. first_index ks a < first_index ks b) (map fst (tally ks []))"
proof (induction ks rule: rev_induct)
  case Nil
  show ?case by simp
next
  case (snoc k ks)
  let ?cs = "tally ks []"
  have step: "tally (ks @ [k]) [] = incr k ?cs" by (rule tally_snoc)
  from snoc.IH have keys: "set (map fst ?cs) = set ks" and dist: "distinct (map fst ?cs)"
    and srt: "sorted_wrt (\<lambda>a b. first_index ks a < first_index ks b) (map fst ?cs)" by blast+
  have srt': "sorted_wrt (\<lambda>a b. first_index (ks @ [k]) a < first_index (ks @ [k]) b) (map fst ?cs)"
    using srt keys
    by (auto intro!: sorted_wrt_mono_rel[OF _ srt] simp: first_index_snoc_old)
  show ?case
  proof (cases "k \<in> set ks")
    case True
    with keys dist srt' show ?thesis unfolding step by (auto simp: keys_incr)
  next
    case False
    have "\<forall>a\<in>set (map fst ?cs). first_index (ks @ [k]) a < first_index (ks @ [k]) k"
      using keys False by (auto simp: first_index_snoc_old first_index_snoc_new first_index_less)
    with False keys dist srt' show ?thesis
      unfolding step by (auto simp: keys_incr sorted_wrt_append)
  qed
qed


lemma attributed_Cons:
  "attributed_issues (r # rs) =
     (case review_issue r of None \<Rightarrow> attributed_issues rs | Some k \<Rightarrow> k # attributed_issues rs)"
  by (cases "review_issue r") (simp_all add: attributed_issues_def)

lemma issues_loop_tally:
  "issues_loop rs cs = Inr cs' \<Longrightarrow> cs' = tally (attributed_issues rs) cs"
proof (induction rs arbitrary: cs)
  case Nil
  then show ?case by (simp add: attributed_issues_def)
next
  case (Cons r rs)
  from Cons.prems obtain c content where c: "dict_getitem r ''content'' = Inr c"
    and l: "py_lower c = Inr content"
    and rest: "issues_loop rs (scan_issues issue_keywords content cs) = Inr cs'"
    by (auto split: sum.splits)
  from c l have ri: "review_issue r = issue_of content" by (simp add: review_issue_def)
  from Cons.IH[OF rest] show ?case
    by (simp add: attributed_Cons ri scan_issues_issue_of split: option.splits)
qed

lemma issue_of_in_table: "issue_of content = Some k \<Longrightarrow> k \<in> set (map fst issue_keywords)"
proof -
  assume "issue_of content = Some k"
  then obtain entry where f: "find (\<lambda>entry. any_keyword (snd entry) content) issue_keywords = Some entry"
    and k: "k = fst entry" by (auto simp: issue_of_def)
  from f have "entry \<in> set issue_keywords" by (auto simp: find_Some_iff)
  with k show ?thesis by simp
qed

lemma attributed_in_table: "set (attributed_issues rs) \<subseteq> set (map fst issue_keywords)"
proof
  fix k assume "k \<in> set (attributed_issues rs)"
  then obtain r where "review_issue r = Some k"
    by (auto simp: attributed_issues_def List.map_filter_def)
  then obtain content where "issue_of content = Some k"
    by (auto simp: review_issue_def split: sum.splits)
  then show "k \<in> set (map fst issue_keywords)" by (rule issue_of_in_table)
qed

lemma tally_length:
  assumes "set ks \<subseteq> set (map fst issue_keywords)"
  shows "length (tally ks []) \<le> 5"
proof -
  from tally_keys[of ks] have s: "set (map fst (tally ks [])) = set ks"
    and d: "distinct (map fst (tally ks []))" by blast+
  have "card (set (map fst (tally ks []))) = length (map fst (tally ks []))"
    using d by (rule distinct_card)
  with s have "length (tally ks []) = card (set ks)" by simp
  also have "\<dots> \<le> card (set (map fst issue_keywords))"
    using assms by (intro card_mono) simp_all
  also have "\<dots> \<le> 5" by (simp add: issue_keywords_names)
  finally show ?thesis .
qed

lemma sum_insort_key: "sum_list (map g (insort_key f x xs)) = g x + sum_list (map g xs)"
  for g :: "'a \<Rightarrow> int"
  by (induction xs) simp_all

lemma sum_sort_key: "sum_list (map g (sort_key f xs)) = sum_list (map g xs)"
  for g :: "'a \<Rightarrow> int"
  by (induction xs) (simp_all add: sum_insort_key)

lemma ranked_lex:
  assumes "sorted (map f xs)" and "\<And>n. sorted_wrt R (filter (\<lambda>y. f y = n) xs)"
  shows "sorted_wrt (\<lambda>x y. f x < f y \<or> (f x = f y \<and> R x y)) xs"
  using assms
proof (induction xs)
  case Nil
  show ?case by simp
next
  case (Cons x xs)
  have tl: "sorted_wrt (\<lambda>x y. f x < f y \<or> (f x = f y \<and> R x y)) xs"
  proof (rule Cons.IH)
    show "sorted (map f xs)" using Cons.prems(1) by simp
    fix n show "sorted_wrt R (filter (\<lambda>y. f y = n) xs)"
      using Cons.prems(2)[of n] by (simp split: if_splits)
  qed
  have "f x < f y \<or> (f x = f y \<and> R x y)" if "y \<in> set xs" for y
  proof (cases "f x = f y")
    case True
    with Cons.prems(2)[of "f x"] that show ?thesis by auto
  next
    case False
    with Cons.prems(1) that show ?thesis by fastforce
  qed
  with tl show ?case by simp
qed

lemma issues_of_analysis:
  assumes "reviews \<noteq> []" and "analyze_reviews sa reviews = Inr a"
  shows "issues a = sorted_by_count_desc (tally (attributed_issues (negatives sa reviews)) [])"
proof -
  from analyze_nonempty(2)[OF assms] obtain cs
    where loop: "issues_loop (negatives sa reviews) [] = Inr cs"
      and iss: "issues a = take 5 (sorted_by_count_desc cs)" by blast
  from issues_loop_tally[OF loop] have cs: "cs = tally (attributed_issues (negatives sa reviews)) []" .
  have "length cs \<le> 5" unfolding cs by (rule tally_length) (rule attributed_in_table)
  with iss cs show ?thesis by (simp add: sorted_by_count_desc_def)
qed

lemma ranked_sorted_tally:
  "ranked_by_first_seen ks (sorted_by_count_desc (tally ks []))"
proof -
  let ?f = "\<lambda>x :: string \<times> int. - snd x"
  let ?R = "\<lambda>x y :: string \<times> int. first_index ks (fst x) < first_index ks (fst y)"
  let ?cs = "tally ks []"
  have "sorted_wrt (\<lambda>a b. first_index ks a < first_index ks b) (map fst ?cs)"
    using tally_keys[of ks] by blast
  then have R: "sorted_wrt ?R ?cs" by (simp add: sorted_wrt_map)
  have "sorted_wrt (\<lambda>x y. ?f x < ?f y \<or> (?f x = ?f y \<and> ?R x y)) (sort_key ?f ?cs)"
  proof (rule ranked_lex)
    show "sorted (map ?f (sort_key ?f ?cs))" by (rule sorted_sort_key)
    fix n
    have "filter (\<lambda>y. ?f y = n) (sort_key ?f ?cs) = filter (\<lambda>y. ?f y = n) ?cs"
      by (rule sort_key_stable)
    with R show "sorted_wrt ?R (filter (\<lambda>y. ?f y = n) (sort_key ?f ?cs))"
      by (simp add: sorted_wrt_filter)
  qed
  then show ?thesis by (simp add: ranked_by_first_seen_def sorted_by_count_desc_def)
qed

section \<open>The order of the issue list\<close>

text \<open>
  Claim C2, as far as the code goes. Whenever \<^verbatim>\<open>analyze_reviews\<close> returns, the issue
  list has at most 5 entries and is ordered by count descending; entries of equal count
  are in the order in which their categories were first counted, that is, by the
  position of the first negative review attributed to each. \<^verbatim>\<open>common_issues\<close> of the
  response lists the same entries in the same order.
\<close>

theorem C2_issues_ranked_by_first_seen:
  assumes "analyze_reviews sa reviews = Inr a"
  shows "length (issues a) \<le> 5
       \<and> sorted_wrt (\<lambda>x y. snd y \<le> snd x) (issues a)
       \<and> ranked_by_first_seen (attributed_issues (negatives sa reviews)) (issues a)
       \<and> map (map snd) (common_issues a) = map (\<lambda>(k, v). [PStr k, PInt v]) (issues a)"
proof -
  have ci: "map (map snd) (common_issues a) = map (\<lambda>(k, v). [PStr k, PInt v]) (issues a)"
    by (simp add: common_issues_def split_def)
  show ?thesis
  proof (cases "reviews = []")
    case True
    with assms have "issues a = []" by (auto simp: analyze_reviews_def)
    with ci show ?thesis by (simp add: ranked_by_first_seen_def)
  next
    case False
    let ?ks = "attributed_issues (negatives sa reviews)"
    have iss: "issues a = sorted_by_count_desc (tally ?ks [])"
      using False assms by (rule issues_of_analysis)
    have len: "length (issues a) \<le> 5"
      using tally_length[OF attributed_in_table, of "negatives sa reviews"]
      by (simp add: iss sorted_by_count_desc_def)
    have rk: "ranked_by_first_seen ?ks (issues a)" unfolding iss by (rule ranked_sorted_tally)
    then have "sorted_wrt (\<lambda>x y. snd y \<le> snd x) (issues a)"
      unfolding ranked_by_first_seen_def by (rule sorted_wrt_mono_rel[rotated]) auto
    with len rk ci show ?thesis by blast
  qed
qed

text \<open>An instance: price is counted before delivery, both once.\<close>

theorem C2_issues_ranked_by_first_seen_witness:
  "analyze_reviews keyword_pipeline
      [rv (PStr ''Too expensive''), rv (PStr ''poor''), rv (PStr ''came late''), rv (PStr ''Broken'')]
     = Inr \<lparr>stats = [(''total'', 4), (''positive'', 0), (''negative'', 4), (''neutral'', 0)],
             issues = [(''quality'', 2), (''price'', 1), (''delivery'', 1)], time_taken = None\<rparr>
   \<and> attributed_issues (negatives keyword_pipeline
      [rv (PStr ''Too expensive''), rv (PStr ''poor''), rv (PStr ''came late''), rv (PStr ''Broken'')])
     = [''price'', ''quality'', ''delivery'', ''quality'']
   \<and> ranked_by_first_seen [''price'', ''quality'', ''delivery'', ''quality'']
        [(''quality'', 2), (''price'', 1), (''delivery'', 1)]"
proof -
  let ?rs = "[rv (PStr ''Too expensive''), rv (PStr ''poor''), rv (PStr ''came late''), rv (PStr ''Broken'')]"
  let ?a = "\<lparr>stats = [(''total'', 4), (''positive'', 0), (''negative'', 4), (''neutral'', 0)],
             issues = [(''quality'', 2), (''price'', 1), (''delivery'', 1)], time_taken = None\<rparr>"
  have h: "analyze_reviews keyword_pipeline ?rs = Inr ?a" by code_simp
  have att: "attributed_issues (negatives keyword_pipeline ?rs)
     = [''price'', ''quality'', ''delivery'', ''quality'']" by code_simp
  from C2_issues_ranked_by_first_seen[OF h]
  have "ranked_by_first_seen (attributed_issues (negatives keyword_pipeline ?rs)) (issues ?a)"
    by blast
  with att have "ranked_by_first_seen [''price'', ''quality'', ''delivery'', ''quality'']
        [(''quality'', 2), (''price'', 1), (''delivery'', 1)]" by simp
  with h att show ?thesis by blast
qed

text \<open>On the same reviews the order of the keyword table would put delivery before
  price: \<open>issue_counts\<close> is filled in the order of the reviews, and the stable sort keeps
  that order among equal counts.\<close>

theorem C2_taxonomy_order_counterexample:
  "analyze_reviews keyword_pipeline
      [rv (PStr ''Too expensive''), rv (PStr ''poor''), rv (PStr ''came late''), rv (PStr ''Broken'')]
     = Inr \<lparr>stats = [(''total'', 4), (''positive'', 0), (''negative'', 4), (''neutral'', 0)],
             issues = [(''quality'', 2), (''price'', 1), (''delivery'', 1)], time_taken = None\<rparr>
   \<and> \<not> ranked_by_taxonomy [(''quality'', 2), (''price'', 1), (''delivery'', 1)]
   \<and> ranked_by_taxonomy [(''quality'', 2), (''delivery'', 1), (''price'', 1)]"
  by code_simp

section \<open>Negative reviews without a keyword\<close>

lemma count_negative: "count_label ''NEGATIVE'' (labels sa reviews) = int (length (negatives sa reviews))"
proof -
  have "length (filter (\<lambda>s. s = l) (map f rs)) = length (filter (\<lambda>r. f r = l) rs)"
    for f :: "review \<Rightarrow> pyval" and rs l
    by (induction rs) simp_all
  then show ?thesis by (simp add: count_label_def labels_eq negatives_eq)
qed

lemma attributed_length: "length (attributed_issues rs) \<le> length rs"
  by (induction rs) (simp_all add: attributed_Cons attributed_issues_def split: option.splits)

lemma attributed_length_less:
  "r \<in> set rs \<Longrightarrow> review_issue r = None \<Longrightarrow> length (attributed_issues rs) < length rs"
proof (induction rs)
  case Nil
  then show ?case by simp
next
  case (Cons x rs)
  show ?case
  proof (cases "x = r")
    case True
    with Cons.prems(2) attributed_length[of rs] show ?thesis by (simp add: attributed_Cons)
  next
    case False
    with Cons have "length (attributed_issues rs) < length rs" by simp
    then show ?thesis by (simp add: attributed_Cons split: option.splits)
  qed
qed

lemma issue_sum:
  assumes "reviews \<noteq> []" and "analyze_reviews sa reviews = Inr a"
  shows "sum_list (map snd (issues a)) = int (length (attributed_issues (negatives sa reviews)))"
  using issues_of_analysis[OF assms]
  by (simp add: sorted_by_count_desc_def sum_sort_key tally_sum)

lemma issue_sum_le_negative:
  assumes "reviews \<noteq> []" and "analyze_reviews sa reviews = Inr a"
  shows "sum_list (map snd (issues a)) \<le> count_label ''NEGATIVE'' (labels sa reviews)"
  using issue_sum[OF assms] attributed_length[of "negatives sa reviews"]
  by (simp add: count_negative)

lemma no_keyword_no_issue:
  "\<forall>entry\<in>set issue_keywords. \<not> any_keyword (snd entry) content \<Longrightarrow> issue_of content = None"
  by (auto simp: issue_of_def find_None_iff)

text \<open>
  Claim C9. Let \<^verbatim>\<open>analyze_reviews\<close> return, and let a review of the input be labelled
  \<^verbatim>\<open>NEGATIVE\<close> while its lower-cased content has no keyword of any category. Then the
  issue loop leaves every issue count as it is when it handles this review, the review
  is one of the negative reviews, whose number is the \<open>negative\<close> count, and the sum
  of the issue counts stays below that count by at least one. (\<open>issue_sum_le_negative\<close>:
  for every non-empty input the sum is at most the negative count.)
\<close>

theorem C9_unmatched_negative_review:
  assumes "analyze_reviews sa reviews = Inr a"
      and "r \<in> set reviews" and "sentiment_of sa r = PStr ''NEGATIVE''"
      and "dict_getitem r ''content'' = Inr c" and "py_lower c = Inr content"
      and "\<forall>entry\<in>set issue_keywords. \<not> any_keyword (snd entry) content"
  shows "issues_loop (r # rest) issue_counts = issues_loop rest issue_counts
       \<and> r \<in> set (negatives sa reviews)
       \<and> stat a ''negative'' = Inr (int (length (negatives sa reviews)))
       \<and> sum_list (map snd (issues a)) + 1 \<le> int (length (negatives sa reviews))"
proof -
  from assms(2) have ne: "reviews \<noteq> []" by auto
  have none: "issue_of content = None" using assms(6) by (rule no_keyword_no_issue)
  with assms(4,5) have step: "issues_loop (r # rest) issue_counts = issues_loop rest issue_counts"
    by (simp add: scan_issues_issue_of)
  from assms(2,3) have neg: "r \<in> set (negatives sa reviews)" by (simp add: negatives_eq)
  from none assms(4,5) have "review_issue r = None" by (simp add: review_issue_def)
  with neg have "length (attributed_issues (negatives sa reviews)) < length (negatives sa reviews)"
    by (rule attributed_length_less)
  with issue_sum[OF ne assms(1)]
  have sum: "sum_list (map snd (issues a)) + 1 \<le> int (length (negatives sa reviews))" by simp
  have "stat a ''negative'' = Inr (int (length (negatives sa reviews)))"
    using analyze_nonempty(1)[OF ne assms(1)] by (simp add: stat_def count_negative)
  with step neg sum show ?thesis by blast
qed

text \<open>An instance: of two negative reviews, one has no keyword.\<close>

theorem C9_unmatched_negative_review_witness:
  "analyze_reviews keyword_pipeline [rv (PStr ''Came LATE''), rv (PStr ''I hate it''), rv (PStr ''good'')]
     = Inr \<lparr>stats = [(''total'', 3), (''positive'', 1), (''negative'', 2), (''neutral'', 0)],
             issues = [(''delivery'', 1)], time_taken = None\<rparr>
   \<and> rv (PStr ''I hate it'') \<in> set [rv (PStr ''Came LATE''), rv (PStr ''I hate it''), rv (PStr ''good'')]
   \<and> sentiment_of keyword_pipeline (rv (PStr ''I hate it'')) = PStr ''NEGATIVE''
   \<and> dict_getitem (rv (PStr ''I hate it'')) ''content'' = Inr (PStr ''I hate it'')
   \<and> py_lower (PStr ''I hate it'') = Inr ''i hate it''
   \<and> list_all (\<lambda>entry. \<not> any_keyword (snd entry) ''i hate it'') issue_keywords
   \<and> length (negatives keyword_pipeline [rv (PStr ''Came LATE''), rv (PStr ''I hate it''), rv (PStr ''good'')]) = 2
   \<and> sum_list (map snd [(''delivery'', 1::int)]) + 1 \<le> 2"
proof -
  let ?rs = "[rv (PStr ''Came LATE''), rv (PStr ''I hate it''), rv (PStr ''good'')]"
  let ?a = "\<lparr>stats = [(''total'', 3), (''positive'', 1), (''negative'', 2), (''neutral'', 0)],
             issues = [(''delivery'', 1)], time_taken = None\<rparr>"
  have h1: "analyze_reviews keyword_pipeline ?rs = Inr ?a" by code_simp
  have h2: "rv (PStr ''I hate it'') \<in> set ?rs" by simp
  have h3: "sentiment_of keyword_pipeline (rv (PStr ''I hate it'')) = PStr ''NEGATIVE''" by code_simp
  have h4: "dict_getitem (rv (PStr ''I hate it'')) ''content'' = Inr (PStr ''I hate it'')"
    by (simp add: rv_def dict_getitem_def)
  have h5: "py_lower (PStr ''I hate it'') = Inr ''i hate it''" by code_simp
  have h6: "\<forall>entry\<in>set issue_keywords. \<not> any_keyword (snd entry) ''i hate it''" by code_simp
  note c = C9_unmatched_negative_review[OF h1 h2 h3 h4 h5 h6]
  from c have "stat ?a ''negative'' = Inr (int (length (negatives keyword_pipeline ?rs)))" by blast
  then have n: "length (negatives keyword_pipeline ?rs) = 2" by (simp add: stat_def)
  from c have "sum_list (map snd (issues ?a)) + 1 \<le> int (length (negatives keyword_pipeline ?rs))"
    by blast
  with n have s: "sum_list (map snd [(''delivery'', 1::int)]) + 1 \<le> 2" by simp
  from h6 have h6': "list_all (\<lambda>entry. \<not> any_keyword (snd entry) ''i hate it'') issue_keywords"
    by (simp add: list_all_iff)
  from h1 h2 h3 h4 h5 h6' n s show ?thesis by blast
qed

section \<open>The loop over the pages\<close>

text \<open>How the body of the \<^verbatim>\<open>try\<close> block ends depends on the response only, and it
  reaches \<^verbatim>\<open>break\<close> exactly when the page was fetched and decoded without error and
  has zero items (\<open>page_break_iff\<close>).\<close>

lemma append_items_acc:
  "append_items its rs = (rs @ fst (append_items its []), snd (append_items its []))"
proof (induction its arbitrary: rs)
  case Nil
  show ?case by simp
next
  case (Cons item its)
  show ?case
  proof (cases "to_review item")
    case (Inl e)
    then show ?thesis by simp
  next
    case (Inr r)
    with Cons.IH[of "rs @ [r]"] Cons.IH[of "[r]"] show ?thesis by simp
  qed
qed

lemma page_body_acc:
  "page_body fetch pid page rs =
     (rs @ fst (page_body fetch pid page []), snd (page_body fetch pid page []))"
proof -
  have "append_items its rs = (rs @ fst (append_items its []), snd (append_items its []))" for its
    by (rule append_items_acc)
  then show ?thesis
    by (auto simp: page_body_def split: sum.splits prod.splits option.splits)
qed

lemma py_iter_empty: "py_iter items = Inr its \<Longrightarrow> (its = [] \<longleftrightarrow> \<not> truthy items)"
  by (cases items) auto

lemma page_break_iff:
  "snd (page_body fetch pid page rs) = Break \<longleftrightarrow> returns_zero_items fetch pid page"
proof (cases "fetch pid page")
  case (Inl e)
  then show ?thesis by (simp add: page_body_def returns_zero_items_def)
next
  case data: (Inr data)
  show ?thesis
  proof (cases "page_items data")
    case (Inl e)
    with data show ?thesis by (simp add: page_body_def returns_zero_items_def)
  next
    case items: (Inr items)
    show ?thesis
    proof (cases "py_iter items")
      case (Inl e)
      with data items show ?thesis by (simp add: page_body_def returns_zero_items_def)
    next
      case (Inr its)
      from py_iter_empty[OF Inr] have e: "its = [] \<longleftrightarrow> \<not> truthy items" .
      show ?thesis
      proof (cases "its = []")
        case True
        with data items Inr e show ?thesis by (simp add: page_body_def returns_zero_items_def)
      next
        case False
        with data items Inr e show ?thesis
          by (auto simp: page_body_def returns_zero_items_def split: prod.splits option.splits)
      qed
    qed
  qed
qed

lemma pages_loop_step:
  "pages_loop fetch pid (page # rest) st =
     (if returns_zero_items fetch pid page
      then \<lparr>st_reviews = fst (page_body fetch pid page (st_reviews st)),
            st_fetched = st_fetched st @ [page]\<rparr>
      else pages_loop fetch pid rest
           \<lparr>st_reviews = fst (page_body fetch pid page (st_reviews st)),
            st_fetched = st_fetched st @ [page]\<rparr>)"
  using page_break_iff[of fetch pid page "st_reviews st"]
  by (cases "page_body fetch pid page (st_reviews st)"; cases "snd (page_body fetch pid page (st_reviews st))")
     auto

lemma pages_loop_fetched:
  "st_fetched (pages_loop fetch pid ps st) =
     st_fetched st @ (case find (returns_zero_items fetch pid) ps of
                        None \<Rightarrow> ps
                      | Some k \<Rightarrow> takeWhile (\<lambda>p. \<not> returns_zero_items fetch pid p) ps @ [k])"
proof (induction ps arbitrary: st)
  case Nil
  show ?case by simp
next
  case (Cons p ps)
  show ?case by (simp add: pages_loop_step Cons.IH split: option.splits del: pages_loop.simps)
qed

lemma upto_first:
  "find P [i..m] = Some k \<Longrightarrow> takeWhile (\<lambda>p. \<not> P p) [i..m] @ [k] = [i..k]"
proof (induction i m rule: upto.induct)
  case (1 i m)
  show ?case
  proof (cases "i \<le> m")
    case False
    with "1.prems" show ?thesis by simp
  next
    case True
    then have rec: "[i..m] = i # [i + 1..m]" by (rule upto_rec1)
    show ?thesis
    proof (cases "P i")
      case True
      with "1.prems" rec show ?thesis by simp
    next
      case False
      with "1.prems" rec have f: "find P [i + 1..m] = Some k" by simp
      then have "k \<in> set [i + 1..m]" by (auto simp: find_Some_iff)
      then have "i \<le> k" by simp
      then have "[i..k] = i # [i + 1..k]" by (rule upto_rec1)
      with "1.IH"[OF True f] False rec show ?thesis by simp
    qed
  qed
qed

text \<open>
  Claim C4. When the URL has a product id, the pages requested by
  \<^verbatim>\<open>get_daraz_reviews\<close> are \<open>1, \<dots>, k\<close>, where \<open>k\<close> is the first page among
  \<open>1, \<dots>, max_pages\<close> that is fetched without error and returns zero items; no page
  after \<open>k\<close> is requested, however large \<open>max_pages\<close> is. A page that raises does
  not return zero items in this sense (\<open>returns_zero_items\<close> is false when the fetch
  raises, and \<open>raised_page_continues\<close> covers every exception of the \<^verbatim>\<open>try\<close> block),
  so it does not stop the loop: when no page returns zero items, all of
  \<open>1, \<dots>, max_pages\<close> are requested.
\<close>

theorem C4_stop_at_first_empty_page:
  assumes "re_search_product_id url = Some product_id"
  shows "pages_fetched fetch url max_pages =
           (case find (returns_zero_items fetch product_id) [1..max_pages] of
              None \<Rightarrow> [1..max_pages]
            | Some k \<Rightarrow> [1..k])"
  using assms
  by (simp add: pages_fetched_def daraz_run_def pages_loop_fetched upto_first split: option.splits)

text \<open>An instance: page 1 times out, page 2 has items, page 3 has none; pages 4 and 5
  are not requested.\<close>

theorem C4_stop_at_first_empty_page_witness:
  "re_search_product_id ''https://www.daraz.pk/products/phone-i123-s456.html'' = Some ''123''
   \<and> sample_fetch ''123'' 1 = Inl (OtherError ''Timeout'')
   \<and> find (returns_zero_items sample_fetch ''123'') [1..5] = Some 3
   \<and> pages_fetched sample_fetch ''https://www.daraz.pk/products/phone-i123-s456.html'' 5 = [1, 2, 3]"
proof -
  let ?url = "''https://www.daraz.pk/products/phone-i123-s456.html''"
  have h: "re_search_product_id ?url = Some ''123''" by code_simp
  have e: "sample_fetch ''123'' 1 = Inl (OtherError ''Timeout'')" by (simp add: sample_fetch_def)
  have f: "find (returns_zero_items sample_fetch ''123'') [1..5] = Some 3" by code_simp
  have u: "[1..3::int] = [1, 2, 3]" by code_simp
  from C4_stop_at_first_empty_page[OF h, of sample_fetch 5] f u
  have "pages_fetched sample_fetch ?url 5 = [1, 2, 3]" by simp
  with h e f show ?thesis by blast
qed

section \<open>Pages that fail\<close>

lemma raised_page_continues:
  assumes "snd (page_body fetch pid page (st_reviews st)) = Raised e"
  shows "pages_loop fetch pid (page # rest) st =
           pages_loop fetch pid rest
             \<lparr>st_reviews = fst (page_body fetch pid page (st_reviews st)),
              st_fetched = st_fetched st @ [page]\<rparr>"
    and "prefix (st_reviews st) (fst (page_body fetch pid page (st_reviews st)))"
    and "\<not> returns_zero_items fetch pid page"
proof -
  from assms show "pages_loop fetch pid (page # rest) st =
           pages_loop fetch pid rest
             \<lparr>st_reviews = fst (page_body fetch pid page (st_reviews st)),
              st_fetched = st_fetched st @ [page]\<rparr>"
    by (cases "page_body fetch pid page (st_reviews st)") simp
  show "prefix (st_reviews st) (fst (page_body fetch pid page (st_reviews st)))"
    by (subst page_body_acc) simp
  from assms page_break_iff[of fetch pid page "st_reviews st"]
  show "\<not> returns_zero_items fetch pid page" by simp
qed


lemma pages_loop_reviews_cong:
  "st_reviews st = st_reviews st' \<Longrightarrow>
     st_reviews (pages_loop fetch pid ps st) = st_reviews (pages_loop fetch pid ps st')"
proof (induction ps arbitrary: st st')
  case Nil
  then show ?case by simp
next
  case (Cons p ps)
  let ?n = "\<lambda>s. \<lparr>st_reviews = fst (page_body fetch pid p (st_reviews s)),
               st_fetched = st_fetched s @ [p]\<rparr>"
  have "st_reviews (pages_loop fetch pid ps (?n st)) = st_reviews (pages_loop fetch pid ps (?n st'))"
    by (rule Cons.IH) (simp add: Cons.prems)
  with Cons.prems show ?case by (simp add: pages_loop_step del: pages_loop.simps)
qed

lemma fetch_error_step:
  assumes "fetch pid page = Inl e"
  shows "pages_loop fetch pid (page # rest) st =
           pages_loop fetch pid rest
             \<lparr>st_reviews = st_reviews st, st_fetched = st_fetched st @ [page]\<rparr>"
  using assms by (simp add: page_body_def)

lemma pages_loop_skip:
  assumes "fetch pid page = Inl e"
  shows "st_reviews (pages_loop fetch pid (xs @ page # ys) st) =
           st_reviews (pages_loop fetch pid (xs @ ys) st)"
proof (induction xs arbitrary: st)
  case Nil
  have "st_reviews (pages_loop fetch pid ys
           \<lparr>st_reviews = st_reviews st, st_fetched = st_fetched st @ [page]\<rparr>)
        = st_reviews (pages_loop fetch pid ys st)"
    by (rule pages_loop_reviews_cong) simp
  moreover have "pages_loop fetch pid (page # ys) st =
           pages_loop fetch pid ys
             \<lparr>st_reviews = st_reviews st, st_fetched = st_fetched st @ [page]\<rparr>"
    using assms by (rule fetch_error_step)
  ultimately show ?case by (simp del: pages_loop.simps)
next
  case (Cons x xs)
  then show ?case by (simp add: pages_loop_step del: pages_loop.simps)
qed



lemma appended_fetch_error:
  "fetch pid page = Inl e \<Longrightarrow>
     appended_by_page fetch pid page = [] \<and> snd (page_body fetch pid page []) = Raised e"
  by (simp add: appended_by_page_def page_body_def)

lemma appended_shape_error:
  "fetch pid page = Inr data \<Longrightarrow> page_items data = Inl e \<Longrightarrow>
     appended_by_page fetch pid page = [] \<and> snd (page_body fetch pid page []) = Raised e"
  by (simp add: appended_by_page_def page_body_def)

lemma fetch_error_page_skipped:
  assumes "1 \<le> page" and "page \<le> max_pages" and "fetch pid page = Inl e"
  shows "page_is_skipped fetch pid page max_pages"
proof -
  have "[1..max_pages] = [1..page - 1] @ page # [page + 1..max_pages]"
    using assms(1,2) by (rule upto_split3)
  moreover have "st_reviews (pages_loop fetch pid ([1..page - 1] @ page # [page + 1..max_pages])
                         \<lparr>st_reviews = [], st_fetched = []\<rparr>)
      = st_reviews (pages_loop fetch pid ([1..page - 1] @ [page + 1..max_pages])
                         \<lparr>st_reviews = [], st_fetched = []\<rparr>)"
    using assms(3) by (rule pages_loop_skip)
  ultimately show ?thesis by (simp add: page_is_skipped_def run_pages_def)
qed




section \<open>URLs without a product id\<close>

text \<open>\<open>has_product_id\<close> says that the URL can be cut as \<open>pre @ ''-i'' @ d # post\<close> with
  a digit \<open>d\<close>, and the search of line 22 finds nothing exactly when it does not
  hold.\<close>

lemma has_product_id_iff:
  "has_product_id url \<longleftrightarrow> (\<exists>pre d post. url = pre @ ''-i'' @ d # post \<and> is_digit d)"
proof
  assume "has_product_id url"
  then obtain s where s: "suffix s url" and h: "product_id_here s"
    by (auto simp: has_product_id_def list_ex_iff)
  from h obtain d rest where "s = CHR ''-'' # CHR ''i'' # d # rest" and "is_digit d"
    by (cases s rule: product_id_here.cases) auto
  with s show "\<exists>pre d post. url = pre @ ''-i'' @ d # post \<and> is_digit d"
    by (auto simp: suffix_def)
next
  assume "\<exists>pre d post. url = pre @ ''-i'' @ d # post \<and> is_digit d"
  then obtain pre d post where u: "url = pre @ ''-i'' @ d # post" and d: "is_digit d" by blast
  from u have "suffix (CHR ''-'' # CHR ''i'' # d # post) url" by (simp add: suffix_def)
  then have m: "CHR ''-'' # CHR ''i'' # d # post \<in> set (suffixes url)" by simp
  from d have "product_id_here (CHR ''-'' # CHR ''i'' # d # post)" by simp
  with m show "has_product_id url" unfolding has_product_id_def list_ex_iff by (rule bexI[rotated])
qed

lemma has_product_id_Cons:
  "has_product_id (c # cs) \<longleftrightarrow> product_id_here (c # cs) \<or> has_product_id cs"
  by (auto simp: has_product_id_def list_ex_iff)

lemma product_id_here_iff:
  "product_id_here (c # cs) \<longleftrightarrow>
      c = CHR ''-'' \<and> (\<exists>ds. cs = CHR ''i'' # ds \<and> takeWhile is_digit ds \<noteq> [])"
proof (cases cs)
  case Nil
  then show ?thesis by simp
next
  case (Cons c' ds)
  then show ?thesis by (cases ds) (auto simp: takeWhile_eq_Nil_iff)
qed


lemma re_search_here:
  assumes "product_id_here (c # cs)"
  shows "re_search_product_id (c # cs) \<noteq> None"
proof -
  from assms obtain ds where "c = CHR ''-''" and "cs = CHR ''i'' # ds"
    and "takeWhile is_digit ds \<noteq> []"
    unfolding product_id_here_iff by blast
  then show ?thesis by simp
qed

lemma re_search_not_here:
  assumes "\<not> product_id_here (c # cs)"
  shows "re_search_product_id (c # cs) = re_search_product_id cs"
proof (cases "c = CHR ''-''")
  case False
  then show ?thesis by simp
next
  case True
  show ?thesis
  proof (cases cs)
    case Nil
    with True show ?thesis by simp
  next
    case (Cons c' ds)
    with assms True have no: "\<not> (c' = CHR ''i'' \<and> takeWhile is_digit ds \<noteq> [])"
      unfolding product_id_here_iff by blast
    have "re_search_product_id (CHR ''-'' # c' # ds) = re_search_product_id (c' # ds)"
      using no by (cases "c' = CHR ''i''") auto
    with True Cons show ?thesis by simp
  qed
qed

lemma re_search_None_iff: "re_search_product_id url = None \<longleftrightarrow> \<not> has_product_id url"
proof (induction url)
  case Nil
  show ?case by (simp add: has_product_id_def)
next
  case (Cons c cs)
  show ?case
  proof (cases "product_id_here (c # cs)")
    case True
    with re_search_here[OF True] show ?thesis unfolding has_product_id_Cons by blast
  next
    case False
    with re_search_not_here[OF False] Cons.IH show ?thesis unfolding has_product_id_Cons by simp
  qed
qed

text \<open>
  Claim C7. For every URL without the pattern \<open>-i<digits>\<close>, \<^verbatim>\<open>get_daraz_reviews\<close>
  returns the empty list (it has no error result) and requests no page, whatever the
  remote endpoint and \<open>max_pages\<close> are.
\<close>

theorem C7_no_product_id_no_fetch:
  assumes "\<not> has_product_id url"
  shows "get_daraz_reviews fetch url max_pages = [] \<and> pages_fetched fetch url max_pages = []"
proof -
  from assms have "re_search_product_id url = None" by (simp add: re_search_None_iff)
  then show ?thesis by (simp add: get_daraz_reviews_def pages_fetched_def daraz_run_def)
qed

text \<open>An instance: in \<open>phone-item-12\<close> the letters \<open>-i\<close> are followed by a letter.\<close>

theorem C7_no_product_id_no_fetch_witness:
  "\<not> has_product_id ''https://www.daraz.pk/products/phone-item-12.html''
   \<and> get_daraz_reviews sample_fetch ''https://www.daraz.pk/products/phone-item-12.html'' 3 = []
   \<and> pages_fetched sample_fetch ''https://www.daraz.pk/products/phone-item-12.html'' 3 = []"
proof -
  have h: "\<not> has_product_id ''https://www.daraz.pk/products/phone-item-12.html''" by code_simp
  from C7_no_product_id_no_fetch[OF h, of sample_fetch 3] h show ?thesis by blast
qed

end
